theory Spec2Isabelle
  imports Complex_Main "HOL-Library.Multiset"
begin

section \<open>JavaScript strings\<close>

text \<open>
  A JavaScript string is modelled as a \<^typ>\<open>string\<close>: one \<^typ>\<open>char\<close> per code unit,
  restricted to the code units below 256.
\<close>

definition startsWith :: "string \<Rightarrow> string \<Rightarrow> bool" where
  \<comment> \<open>\<^verbatim>\<open>s.startsWith(p)\<close>\<close>
  "startsWith s p = (take (length p) s = p)"

fun replaceAll :: "char \<Rightarrow> string \<Rightarrow> string \<Rightarrow> string" where
  \<comment> \<open>\<^verbatim>\<open>s.replace(/c/g, r)\<close> for a one-character pattern\<close>
  "replaceAll c r [] = []"
| "replaceAll c r (x # xs) = (if x = c then r @ replaceAll c r xs else x # replaceAll c r xs)"


definition isWhiteSpace :: "char \<Rightarrow> bool" where
  \<comment> \<open>the white space and line terminator code units below 256\<close>
  "isWhiteSpace c \<longleftrightarrow> c \<in> set [CHR 0x09, CHR 0x0A, CHR 0x0B, CHR 0x0C, CHR 0x0D, CHR 0x20, CHR 0xA0]"

definition trim :: "string \<Rightarrow> string" where
  \<comment> \<open>\<^verbatim>\<open>s.trim()\<close>\<close>
  "trim s = rev (dropWhile isWhiteSpace (rev (dropWhile isWhiteSpace s)))"

fun includes_str :: "string \<Rightarrow> string \<Rightarrow> bool" where
  \<comment> \<open>\<^verbatim>\<open>s.includes_str(p)\<close>\<close>
  "includes_str [] p = (p = [])"
| "includes_str (x # xs) p = (startsWith (x # xs) p \<or> includes_str xs p)"

definition toLowerCase :: "string \<Rightarrow> string" where
  \<comment> \<open>\<^verbatim>\<open>s.toLowerCase()\<close> on code units below 256\<close>
  "toLowerCase s =
     map (\<lambda>c. let n = (of_char c :: nat)
              in if (65 \<le> n \<and> n \<le> 90) \<or> (192 \<le> n \<and> n \<le> 222 \<and> n \<noteq> 215)
                 then char_of (n + 32) else c) s"

fun decimal :: "nat \<Rightarrow> string" where
  "decimal n = (if n < 10 then [''0123456789'' ! n]
                else decimal (n div 10) @ [''0123456789'' ! (n mod 10)])"

definition numberToString :: "int \<Rightarrow> string" where
  \<comment> \<open>an integer inside a template literal\<close>
  "numberToString i = (if i < 0 then CHR ''-'' # decimal (nat (- i)) else decimal (nat i))"

fun findIndex :: "('a \<Rightarrow> bool) \<Rightarrow> 'a list \<Rightarrow> nat option" where
  \<comment> \<open>\<^verbatim>\<open>xs.findIndex(p)\<close>, with \<open>None\<close> for \<open>-1\<close>\<close>
  "findIndex p [] = None"
| "findIndex p (x # xs) = (if p x then Some 0 else map_option Suc (findIndex p xs))"

definition splice1 :: "nat \<Rightarrow> 'a list \<Rightarrow> 'a list" where
  \<comment> \<open>\<^verbatim>\<open>xs.splice(index, 1)\<close> for an index that is not negative: nothing is removed
      when the index is past the end\<close>
  "splice1 index xs = take index xs @ drop (Suc index) xs"

section \<open>Data model\<close>

text \<open>
  Field \<open>f\<close> of an image record is \<open>img_f\<close>, of a batch \<open>b_f\<close>. An \<open>id\<close> is the sum
  \<^verbatim>\<open>Date.now() + index + Math.random()\<close>, taken exactly, as a rational number. The
  \<open>createdAt\<close> of a record is the instant that its ISO string denotes, in milliseconds.
\<close>

datatype error =
    RemoteRequestFailed string
  | NoResponseFromModel
  | NoImageInResponse
  | TypeError
  | StoreError

record ImageRecord =
  img_id :: rat
  img_url :: string
  img_prompt :: string
  img_model :: string
  img_modelName :: string
  img_size :: string
  img_quality :: string
  img_aspectRatio :: string
  img_references :: "string list"
  img_createdAt :: int

record modelConfig =
  cfg_name :: string
  supportsImageSize :: bool
  supportsAspectRatio :: bool
  supportsImageInput :: bool
  maxReferences :: nat

definition mk_config :: "string \<Rightarrow> bool \<Rightarrow> bool \<Rightarrow> bool \<Rightarrow> nat \<Rightarrow> modelConfig" where
  "mk_config n sz ar inp mx =
     \<lparr>cfg_name = n, supportsImageSize = sz, supportsAspectRatio = ar,
      supportsImageInput = inp, maxReferences = mx\<rparr>"

definition MODEL_CONFIGS :: "(string \<times> modelConfig) list" where
  "MODEL_CONFIGS =
    [(''google/gemini-2.5-flash-image'', mk_config ''Gemini 2.5 Flash Image'' True True True 3),
     (''google/gemini-2.5-flash-image-preview'',
        mk_config ''Gemini 2.5 Flash Image (Preview)'' True True True 3),
     (''google/gemini-3-pro-image-preview'',
        mk_config ''Gemini 3 Pro Image (Preview)'' True True True 14),
     (''openai/gpt-5-image'', mk_config ''GPT-5 Image'' False True True 1),
     (''openai/gpt-5-image-mini'', mk_config ''GPT-5 Image Mini'' False True True 1),
     (''black-forest-labs/flux.2-pro'', mk_config ''Flux 2 Pro'' False True False 0),
     (''black-forest-labs/flux.2-max'', mk_config ''Flux 2 Max'' False True False 0),
     (''black-forest-labs/flux.2-flex'', mk_config ''Flux 2 Flex'' False True False 0),
     (''black-forest-labs/flux.2-klein-4b'', mk_config ''Flux 2 Klein 4B'' False True False 0),
     (''bytedance-seed/seedream-4.5'', mk_config ''Seedream 4.5'' False True False 0),
     (''sourceful/riverflow-v2-fast-preview'', mk_config ''Riverflow V2 Fast'' False True False 0),
     (''sourceful/riverflow-v2-standard-preview'',
        mk_config ''Riverflow V2 Standard'' False True False 0),
     (''sourceful/riverflow-v2-max-preview'', mk_config ''Riverflow V2 Max'' False True False 0)]"

record batch =
  b_id :: rat
  b_prompt :: string
  b_model :: string
  b_modelName :: string
  b_count :: int
  b_completed :: int
  b_failed :: int

text \<open>The body of one outbound request, and the credential of its header.\<close>

datatype content_part = Image_url string string | Text string

datatype content = Plain string | Parts "content_part list"

record request =
  authorization :: string
  req_model :: string
  req_content :: content
  req_image_config :: "(string \<times> string) option"
  req_aspect_ratio :: "string option"

text \<open>
  One run of \<open>generateImages\<close> that got past its checks: the constants of its closure,
  the batch object it created, and the state of each unit it launched.
\<close>

datatype unit_state = Pending | Succeeded | Failed

record generation =
  g_prompt :: string
  g_modelConfig :: modelConfig
  currentReferences :: "string list"
  currentModel :: string
  currentSize :: string
  currentQuality :: string
  currentAspectRatio :: string
  g_imageCount :: int
  batchId :: rat
  batch :: batch
  units :: "unit_state list"
  finished :: bool

text \<open>What the program does to its surroundings, newest first.\<close>

datatype effect =
    Toast string string
  | Fetch nat nat request
  | Inserted nat nat ImageRecord
  | Store_put ImageRecord
  | Store_delete rat
  | Store_clear
  | Store_getAll
  | Console error
  | Uncaught error

text \<open>
  The application state: the fields of \<open>state\<close>, the value of the prompt input, the
  generations (a batch object is reached through the address of its generation, which is
  what \<open>pendingBatches\<close> holds), the object store of the database, and the effects.
\<close>

record app =
  apiKey :: string
  selectedModel :: string
  imageSize :: string
  imageQuality :: string
  aspectRatio :: string
  imageCount :: int
  references :: "string list"
  images :: "ImageRecord list"
  currentImage :: "ImageRecord option"
  pendingBatches :: "nat list"
  promptInput :: string
  generations :: "generation list"
  db :: "ImageRecord list"
  effects :: "effect list"

text \<open>
  The controls of the page, which the source reads through \<open>dataset\<close>: the size and
  quality of each \<open>.btn-toggle\<close>, the ratio of each \<open>.btn-aspect\<close>, the value of each
  model option, in document order.
\<close>

record dom =
  btn_toggle :: "(string \<times> string) list"
  btn_aspect :: "string list"
  select_option :: "string list"

section \<open>ImagenDB\<close>

definition store_put :: "ImageRecord \<Rightarrow> ImageRecord list \<Rightarrow> ImageRecord list" where
  \<comment> \<open>\<^verbatim>\<open>store.put(imageData)\<close> on a store keyed by \<open>id\<close>\<close>
  "store_put r store = r # filter (\<lambda>x. img_id x \<noteq> img_id r) store"

definition store_delete :: "rat \<Rightarrow> ImageRecord list \<Rightarrow> ImageRecord list" where
  "store_delete k store = filter (\<lambda>x. img_id x \<noteq> k) store"

definition getAllImages :: "bool \<Rightarrow> ImageRecord list \<Rightarrow> error + ImageRecord list" where
  \<comment> \<open>\<^verbatim>\<open>store.getAll()\<close> yields the records in key order; the sort is stable\<close>
  "getAllImages fails store =
     (if fails then Inl StoreError
      else Inr (sort_key (\<lambda>r. - img_createdAt r) (sort_key img_id store)))"

section \<open>Start\<close>

record prefs =
  imagen_api_key :: "string option"
  imagen_model :: "string option"
  imagen_size :: "string option"
  imagen_quality :: "string option"
  imagen_aspect_ratio :: "string option"
  imagen_count :: "int option"

definition or_default :: "string option \<Rightarrow> string \<Rightarrow> string" where
  \<comment> \<open>\<^verbatim>\<open>localStorage.getItem(k) || d\<close>\<close>
  "or_default v d = (case v of None \<Rightarrow> d | Some x \<Rightarrow> if x = [] then d else x)"

definition init :: "prefs \<Rightarrow> bool \<Rightarrow> ImageRecord list \<Rightarrow> app" where
  \<comment> \<open>the initial \<open>state\<close>, then the load of \<open>init\<close>; \<open>imagen_count\<close> is what
      \<open>parseInt\<close> made of the stored count, \<open>None\<close> for \<open>NaN\<close>\<close>
  "init p fails store =
     \<lparr>apiKey = or_default (imagen_api_key p) [],
      selectedModel = or_default (imagen_model p) ''google/gemini-2.5-flash-image'',
      imageSize = or_default (imagen_size p) ''1024x1024'',
      imageQuality = or_default (imagen_quality p) ''1K'',
      aspectRatio = or_default (imagen_aspect_ratio p) ''1:1'',
      imageCount = (case imagen_count p of None \<Rightarrow> 1 | Some n \<Rightarrow> if n = 0 then 1 else n),
      references = [],
      images = (case getAllImages fails store of Inr xs \<Rightarrow> xs | Inl e \<Rightarrow> []),
      currentImage = None,
      pendingBatches = [],
      promptInput = [],
      generations = [],
      db = store,
      effects = (case getAllImages fails store of
                   Inr xs \<Rightarrow> [Store_getAll] | Inl e \<Rightarrow> [Console e, Store_getAll])\<rparr>"

section \<open>Image generation\<close>

definition generateSingleImage_request :: "app \<Rightarrow> string \<Rightarrow> modelConfig \<Rightarrow> request" where
  \<comment> \<open>\<open>generateSingleImage\<close> up to its \<open>fetch\<close>; no model configuration has
      \<open>modalities\<close>, so that the body has none\<close>
  "generateSingleImage_request s prompt modelConfig =
     (let content =
            (if supportsImageInput modelConfig
             then map (\<lambda>ref. Image_url ref ''high'') (filter (\<lambda>ref. ref \<noteq> []) (references s))
             else []) @ [Text prompt]
      in \<lparr>authorization = ''Bearer '' @ apiKey s,
          req_model = selectedModel s,
          req_content = (if length content = 1 then Plain prompt else Parts content),
          req_image_config =
            (if supportsImageSize modelConfig \<and> includes_str (selectedModel s) ''gemini''
             then Some (toLowerCase (imageQuality s), aspectRatio s) else None),
          req_aspect_ratio =
            (if supportsAspectRatio modelConfig \<and> \<not> includes_str (selectedModel s) ''gemini''
             then Some (aspectRatio s) else None)\<rparr>)"

definition new_generation :: "int \<Rightarrow> rat \<Rightarrow> app \<Rightarrow> string \<Rightarrow> modelConfig \<Rightarrow> generation" where
  \<comment> \<open>the constants that \<open>generateImages\<close> takes from the live settings, and its batch\<close>
  "new_generation now rnd s prompt modelConfig =
     \<lparr>g_prompt = prompt,
      g_modelConfig = modelConfig,
      currentReferences = (if length (references s) > 0 then references s else []),
      currentModel = selectedModel s,
      currentSize = imageSize s,
      currentQuality = imageQuality s,
      currentAspectRatio = aspectRatio s,
      g_imageCount = imageCount s,
      batchId = of_int now + rnd,
      batch = \<lparr>b_id = of_int now + rnd, b_prompt = prompt,
               b_model = selectedModel s, b_modelName = cfg_name modelConfig,
               b_count = imageCount s, b_completed = 0, b_failed = 0\<rparr>,
      units = replicate (nat (imageCount s)) Pending,
      finished = False\<rparr>"

definition generateImages :: "int \<Rightarrow> rat \<Rightarrow> app \<Rightarrow> app" where
  \<comment> \<open>\<open>generateImages\<close> up to its \<open>await\<close>: the loop starts every unit, and each unit
      runs up to the \<open>fetch\<close> of \<open>generateSingleImage\<close>, before the handler yields;
      \<open>now\<close> and \<open>rnd\<close> are what \<open>Date.now()\<close> and \<open>Math.random()\<close> give it. With a
      model that has no configuration, \<open>modelConfig.name\<close> raises a \<open>TypeError\<close>.\<close>
  "generateImages now rnd s =
     (let prompt = trim (promptInput s) in
      if prompt = [] then s\<lparr>effects := Toast ''Please enter a prompt'' ''warning'' # effects s\<rparr>
      else if apiKey s = [] then
        s\<lparr>effects := Toast ''Please enter your OpenRouter API key'' ''error'' # effects s\<rparr>
      else
        (case map_of MODEL_CONFIGS (selectedModel s) of
           None \<Rightarrow> s\<lparr>effects := Uncaught TypeError # effects s\<rparr>
         | Some modelConfig \<Rightarrow>
             let a = length (generations s)
             in s\<lparr>generations := generations s @ [new_generation now rnd s prompt modelConfig],
                  pendingBatches := pendingBatches s @ [a],
                  effects :=
                    map (\<lambda>i. Fetch a i (generateSingleImage_request s prompt modelConfig))
                      (rev [0..<nat (imageCount s)])
                    @ Toast (''Queued '' @ numberToString (imageCount s)
                             @ '' image(s) for generation'') ''success''
                    # effects s\<rparr>))"

definition settle_unit :: "nat \<Rightarrow> bool \<Rightarrow> generation \<Rightarrow> generation" where
  \<comment> \<open>\<open>batch.completed++\<close> or \<open>batch.failed++\<close>, and the unit is settled\<close>
  "settle_unit index ok g =
     g\<lparr>batch := (if ok then (batch g)\<lparr>b_completed := b_completed (batch g) + 1\<rparr>
                  else (batch g)\<lparr>b_failed := b_failed (batch g) + 1\<rparr>),
       units := (units g)[index := (if ok then Succeeded else Failed)]\<rparr>"

definition settle :: "nat \<Rightarrow> nat \<Rightarrow> bool \<Rightarrow> generation list \<Rightarrow> generation list" where
  "settle a index ok gs = gs[a := settle_unit index ok (gs ! a)]"

definition imageData :: "generation \<Rightarrow> nat \<Rightarrow> string \<Rightarrow> int \<Rightarrow> rat \<Rightarrow> int \<Rightarrow> ImageRecord" where
  \<comment> \<open>the record that unit \<open>index\<close> builds from the constants of its closure\<close>
  "imageData g index result now rnd created =
     \<lparr>img_id = of_int now + of_nat index + rnd,
      img_url = result,
      img_prompt = g_prompt g,
      img_model = currentModel g,
      img_modelName = cfg_name (g_modelConfig g),
      img_size = currentSize g,
      img_quality = currentQuality g,
      img_aspectRatio = currentAspectRatio g,
      img_references = currentReferences g,
      img_createdAt = created\<rparr>"

definition unit_pending :: "nat \<Rightarrow> nat \<Rightarrow> app \<Rightarrow> bool" where
  "unit_pending a index s \<longleftrightarrow>
     a < length (generations s) \<and> index < length (units (generations s ! a))
     \<and> units (generations s ! a) ! index = Pending"

definition generateAndDisplay ::
  "nat \<Rightarrow> nat \<Rightarrow> error + string \<Rightarrow> int \<Rightarrow> rat \<Rightarrow> int \<Rightarrow> bool \<Rightarrow> app \<Rightarrow> app" where
  \<comment> \<open>\<open>generateAndDisplay(index)\<close> of generation \<open>a\<close> from the moment its request
      settles with \<open>outcome\<close> (the error raised or the payload returned by
      \<open>generateSingleImage\<close>); \<open>now\<close>, \<open>rnd\<close> and \<open>created\<close> are what
      \<open>Date.now()\<close>, \<open>Math.random()\<close> and \<open>new Date()\<close> give it, \<open>putFails\<close> whether
      the write to the store fails. A unit settles once.\<close>
  "generateAndDisplay a index outcome now rnd created putFails s =
     (if unit_pending a index s then
        (case outcome of
           Inr result \<Rightarrow>
             if result \<noteq> [] then
               let r = imageData (generations s ! a) index result now rnd created
               in s\<lparr>images := r # images s,
                    generations := settle a index True (generations s),
                    db := (if putFails then db s else store_put r (db s)),
                    effects := (if putFails then [Console StoreError] else [])
                               @ Store_put r # Inserted a index r # effects s\<rparr>
             else s\<lparr>generations := settle a index False (generations s)\<rparr>
         | Inl e \<Rightarrow>
             s\<lparr>generations := settle a index False (generations s),
               effects := Console e # effects s\<rparr>)
      else s)"

definition completion_toast :: "int \<Rightarrow> effect" where
  "completion_toast completed =
     (if completed > 0 then Toast (numberToString completed @ '' image(s) generated!'') ''success''
      else Toast ''Failed to generate images. Check console for details.'' ''error'')"

definition generateImages_settled :: "nat \<Rightarrow> app \<Rightarrow> app" where
  \<comment> \<open>the rest of \<open>generateImages\<close> of generation \<open>a\<close>, after
      \<open>Promise.allSettled\<close>: it runs once, when no unit is pending\<close>
  "generateImages_settled a s =
     (if a < length (generations s) \<and> \<not> finished (generations s ! a)
         \<and> Pending \<notin> set (units (generations s ! a))
      then
        let g = generations s ! a;
            batchIndex = findIndex (\<lambda>x. b_id (batch (generations s ! x)) = batchId g)
                           (pendingBatches s)
        in s\<lparr>pendingBatches :=
               (case batchIndex of None \<Rightarrow> pendingBatches s
                | Some k \<Rightarrow> splice1 k (pendingBatches s)),
             generations := (generations s)[a := g\<lparr>finished := True\<rparr>],
             effects := completion_toast (b_completed (batch g)) # effects s\<rparr>
      else s)"

section \<open>Gallery\<close>

definition deleteImage :: "nat \<Rightarrow> bool \<Rightarrow> app \<Rightarrow> app" where
  \<comment> \<open>\<open>imageToDelete.id\<close> is read inside the \<open>try\<close>: past the end of the list it raises a
      \<open>TypeError\<close>, which the \<open>catch\<close> logs, and no request reaches the store\<close>
  "deleteImage index fails s =
     (let imageToDelete = (if index < length (images s) then Some (images s ! index) else None);
          s1 = s\<lparr>images := splice1 index (images s)\<rparr>;
          s2 = (case imageToDelete of
                  None \<Rightarrow> s1\<lparr>effects := Console TypeError # effects s1\<rparr>
                | Some r \<Rightarrow>
                    s1\<lparr>db := (if fails then db s1 else store_delete (img_id r) (db s1)),
                       effects := (if fails then [Console StoreError] else [])
                                  @ Store_delete (img_id r) # effects s1\<rparr>)
      in s2\<lparr>effects := Toast ''Image deleted'' ''success'' # effects s2\<rparr>)"

definition clearGallery :: "bool \<Rightarrow> bool \<Rightarrow> app \<Rightarrow> app" where
  \<comment> \<open>the click handler of \<open>clearGallery\<close>; \<open>confirmed\<close> is the answer to \<open>confirm\<close>\<close>
  "clearGallery confirmed fails s =
     (if confirmed then
        s\<lparr>images := [],
          db := (if fails then db s else []),
          effects := Toast ''Gallery cleared'' ''success''
                     # (if fails then [Console StoreError] else []) @ Store_clear # effects s\<rparr>
      else s)"

definition openModal :: "nat \<Rightarrow> app \<Rightarrow> app" where
  \<comment> \<open>a click on the card of \<open>state.images[index]\<close>\<close>
  "openModal index s =
     (if index < length (images s) then s\<lparr>currentImage := Some (images s ! index)\<rparr> else s)"

definition closeModal :: "app \<Rightarrow> app" where
  "closeModal s = s\<lparr>currentImage := None\<rparr>"

definition useImageAsReference :: "app \<Rightarrow> app" where
  "useImageAsReference s =
     (case currentImage s of
        None \<Rightarrow> s
      | Some cur \<Rightarrow>
          (closeModal (s\<lparr>references := references s @ [img_url cur]\<rparr>))
            \<lparr>effects := Toast ''Image added as reference'' ''success'' # effects s\<rparr>)"

definition restoreQuality :: "string \<Rightarrow> app \<Rightarrow> string \<times> string \<Rightarrow> app" where
  \<comment> \<open>one round of the loop over \<open>.btn-toggle\<close>\<close>
  "restoreQuality q s btn =
     (if snd btn = q then s\<lparr>imageSize := fst btn, imageQuality := snd btn\<rparr> else s)"

definition restoreAspect :: "string \<Rightarrow> app \<Rightarrow> string \<Rightarrow> app" where
  \<comment> \<open>one round of the loop over \<open>.btn-aspect\<close>\<close>
  "restoreAspect r s btn = (if btn = r then s\<lparr>aspectRatio := r\<rparr> else s)"

definition recreateImage :: "dom \<Rightarrow> app \<Rightarrow> app" where
  "recreateImage d s =
     (case currentImage s of
        None \<Rightarrow> s
      | Some cur \<Rightarrow>
          let s1 = s\<lparr>promptInput := img_prompt cur, selectedModel := img_model cur\<rparr>;
              s2 = foldl (restoreQuality (img_quality cur)) s1 (btn_toggle d);
              s3 = foldl (restoreAspect (img_aspectRatio cur)) s2 (btn_aspect d);
              s4 = s3\<lparr>references := (if length (img_references cur) > 0
                                      then img_references cur else [])\<rparr>
          in (closeModal s4)
               \<lparr>effects := Toast ''Settings restored. Click Generate to recreate.'' ''success''
                           # effects s4\<rparr>)"

section \<open>Settings\<close>

definition selectModel :: "dom \<Rightarrow> nat \<Rightarrow> app \<Rightarrow> app" where
  "selectModel d k s =
     (if k < length (select_option d) then s\<lparr>selectedModel := select_option d ! k\<rparr> else s)"

definition toggleSize :: "dom \<Rightarrow> nat \<Rightarrow> app \<Rightarrow> app" where
  "toggleSize d k s =
     (if k < length (btn_toggle d)
      then s\<lparr>imageSize := fst (btn_toggle d ! k), imageQuality := snd (btn_toggle d ! k)\<rparr>
      else s)"

definition selectAspect :: "dom \<Rightarrow> nat \<Rightarrow> app \<Rightarrow> app" where
  "selectAspect d k s =
     (if k < length (btn_aspect d) then s\<lparr>aspectRatio := btn_aspect d ! k\<rparr> else s)"

definition decreaseCount :: "app \<Rightarrow> app" where
  "decreaseCount s = (if imageCount s > 1 then s\<lparr>imageCount := imageCount s - 1\<rparr> else s)"

definition increaseCount :: "app \<Rightarrow> app" where
  "increaseCount s = (if imageCount s < 8 then s\<lparr>imageCount := imageCount s + 1\<rparr> else s)"

definition changeCount :: "int option \<Rightarrow> app \<Rightarrow> app" where
  \<comment> \<open>the argument is \<open>parseInt(e.target.value)\<close>, \<open>None\<close> for \<open>NaN\<close>\<close>
  "changeCount v s =
     (let val = (case v of None \<Rightarrow> 1 | Some n \<Rightarrow> if n < 1 then 1 else n);
          val = (if val > 8 then 8 else val)
      in s\<lparr>imageCount := val\<rparr>)"

definition saveApiKey :: "string \<Rightarrow> app \<Rightarrow> app" where
  "saveApiKey v s =
     s\<lparr>apiKey := trim v, effects := Toast ''API key saved!'' ''success'' # effects s\<rparr>"

definition addReference :: "string \<Rightarrow> app \<Rightarrow> app" where
  \<comment> \<open>\<open>reader.onload\<close> of an upload, a drop or a paste\<close>
  "addReference r s = s\<lparr>references := references s @ [r]\<rparr>"

definition removeReference :: "nat \<Rightarrow> app \<Rightarrow> app" where
  "removeReference index s = s\<lparr>references := splice1 index (references s)\<rparr>"

definition clearAllReferences :: "app \<Rightarrow> app" where
  "clearAllReferences s =
     s\<lparr>references := [], effects := Toast ''References cleared'' ''success'' # effects s\<rparr>"

section \<open>Events\<close>

datatype event =
    GenerateImages int rat
  | UnitSettles nat nat "error + string" int rat int bool
  | AllSettled nat
  | DeleteImage nat bool
  | ClearGallery bool bool
  | OpenModal nat
  | CloseModal
  | UseImageAsReference
  | RecreateImage
  | SelectModel nat
  | ToggleSize nat
  | SelectAspect nat
  | DecreaseCount
  | IncreaseCount
  | ChangeCount "int option"
  | SaveApiKey string
  | InputPrompt string
  | AddReference string
  | RemoveReference nat
  | ClearAllReferences

fun step :: "dom \<Rightarrow> event \<Rightarrow> app \<Rightarrow> app" where
  "step d (GenerateImages now rnd) s = generateImages now rnd s"
| "step d (UnitSettles a index outcome now rnd created putFails) s =
     generateAndDisplay a index outcome now rnd created putFails s"
| "step d (AllSettled a) s = generateImages_settled a s"
| "step d (DeleteImage index fails) s = deleteImage index fails s"
| "step d (ClearGallery confirmed fails) s = clearGallery confirmed fails s"
| "step d (OpenModal index) s = openModal index s"
| "step d CloseModal s = closeModal s"
| "step d UseImageAsReference s = useImageAsReference s"
| "step d RecreateImage s = recreateImage d s"
| "step d (SelectModel k) s = selectModel d k s"
| "step d (ToggleSize k) s = toggleSize d k s"
| "step d (SelectAspect k) s = selectAspect d k s"
| "step d DecreaseCount s = decreaseCount s"
| "step d IncreaseCount s = increaseCount s"
| "step d (ChangeCount v) s = changeCount v s"
| "step d (SaveApiKey v) s = saveApiKey v s"
| "step d (InputPrompt v) s = s\<lparr>promptInput := v\<rparr>"
| "step d (AddReference r) s = addReference r s"
| "step d (RemoveReference index) s = removeReference index s"
| "step d ClearAllReferences s = clearAllReferences s"

fun run :: "dom \<Rightarrow> app \<Rightarrow> event list \<Rightarrow> app" where
  "run d s [] = s"
| "run d s (e # es) = run d (step d e s) es"

section \<open>sanitizeImageUrl\<close>

definition sanitizeImageUrl :: "string \<Rightarrow> string" where
  "sanitizeImageUrl url =
     (if url = [] then []
      else if startsWith url ''data:image/'' then url
      else if startsWith url ''https://'' then
        replaceAll (CHR 0x27) ''%27'' (replaceAll (CHR 0x22) ''%22'' url)
      else [])"

section \<open>What is observed of a state\<close>

definition newest_first :: "ImageRecord list \<Rightarrow> bool" where
  "newest_first xs = sorted_wrt (\<lambda>x y. img_createdAt y \<le> img_createdAt x) xs"

fun store_calls :: "effect list \<Rightarrow> effect list" where
  "store_calls [] = []"
| "store_calls (Store_put r # es) = Store_put r # store_calls es"
| "store_calls (Store_delete k # es) = Store_delete k # store_calls es"
| "store_calls (Store_clear # es) = Store_clear # store_calls es"
| "store_calls (Store_getAll # es) = Store_getAll # store_calls es"
| "store_calls (e # es) = store_calls es"

fun inserted :: "nat \<Rightarrow> effect list \<Rightarrow> ImageRecord list" where
  \<comment> \<open>the records that the units of generation \<open>a\<close> put into the gallery\<close>
  "inserted a [] = []"
| "inserted a (Inserted b i r # es) = (if a = b then r # inserted a es else inserted a es)"
| "inserted a (e # es) = inserted a es"

fun uncaught :: "effect list \<Rightarrow> error list" where
  "uncaught [] = []"
| "uncaught (Uncaught e # es) = e # uncaught es"
| "uncaught (e # es) = uncaught es"

section \<open>Invariants\<close>

text \<open>
  The predicates below are kept by every event; they relate the counters of a batch to the
  state of its units, the list of pending batches to the generations that have not run
  their last part, the effects to the generations, and the gallery to the clock.
\<close>

definition gen_ok :: "generation \<Rightarrow> bool" where
  "gen_ok g \<longleftrightarrow>
     0 \<le> b_count (batch g)
     \<and> length (units g) = nat (b_count (batch g))
     \<and> b_completed (batch g) = int (count_list (units g) Succeeded)
     \<and> b_failed (batch g) = int (count_list (units g) Failed)
     \<and> b_id (batch g) = batchId g
     \<and> (finished g \<longrightarrow> Pending \<notin> set (units g))"

definition counted :: "app \<Rightarrow> bool" where
  "counted s \<longleftrightarrow> 0 \<le> imageCount s \<and> list_all gen_ok (generations s)"

definition listed :: "app \<Rightarrow> bool" where
  "listed s \<longleftrightarrow>
     distinct (pendingBatches s)
     \<and> set (pendingBatches s) = {a. a < length (generations s) \<and> \<not> finished (generations s ! a)}"

definition is_ok :: "error + string \<Rightarrow> bool" where
  "is_ok outcome = (case outcome of Inr result \<Rightarrow> result \<noteq> [] | Inl e \<Rightarrow> False)"

definition accepted :: "app \<Rightarrow> bool" where
  "accepted s \<longleftrightarrow>
     trim (promptInput s) \<noteq> [] \<and> apiKey s \<noteq> [] \<and> map_of MODEL_CONFIGS (selectedModel s) \<noteq> None"

definition batch_event :: "event \<Rightarrow> bool" where
  "batch_event e = (case e of GenerateImages now rnd \<Rightarrow> True
                    | UnitSettles a i out now rnd cr pf \<Rightarrow> True
                    | AllSettled a \<Rightarrow> True | _ \<Rightarrow> False)"

definition runnable :: "nat \<Rightarrow> app \<Rightarrow> bool" where
  "runnable a s \<longleftrightarrow>
     a < length (generations s) \<and> \<not> finished (generations s ! a)
     \<and> Pending \<notin> set (units (generations s ! a))"

definition recorded :: "app \<Rightarrow> bool" where
  "recorded s \<longleftrightarrow>
     (\<forall>a. length (inserted a (effects s))
          = (if a < length (generations s)
             then count_list (units (generations s ! a)) Succeeded else 0))"

definition announced :: "app \<Rightarrow> bool" where
  "announced s \<longleftrightarrow>
     (\<forall>a<length (generations s). finished (generations s ! a) \<longrightarrow>
        completion_toast (b_completed (batch (generations s ! a))) \<in> set (effects s))"

fun is_inserted :: "effect \<Rightarrow> bool" where
  "is_inserted (Inserted a i r) = True"
| "is_inserted e = False"

definition constants ::
  "generation \<Rightarrow> string \<times> modelConfig \<times> string list \<times> string \<times> string \<times> string \<times> string" where
  "constants g = (g_prompt g, g_modelConfig g, currentReferences g, currentModel g,
                  currentSize g, currentQuality g, currentAspectRatio g)"






section \<open>Example data\<close>

text \<open>
  The controls that the README lists (three resolutions, six aspect ratios); the sizes of
  the second and third resolution stand for whatever the page gives them.
\<close>

definition page :: dom where
  "page = \<lparr>btn_toggle = [(''1024x1024'', ''1K''), (''2048x2048'', ''2K''), (''4096x4096'', ''4K'')],
           btn_aspect = [''1:1'', ''16:9'', ''9:16'', ''4:3'', ''3:4'', ''3:2''],
           select_option = map fst MODEL_CONFIGS\<rparr>"

definition no_prefs :: prefs where
  "no_prefs = \<lparr>imagen_api_key = None, imagen_model = None, imagen_size = None,
               imagen_quality = None, imagen_aspect_ratio = None, imagen_count = None\<rparr>"

definition picture :: "rat \<Rightarrow> int \<Rightarrow> ImageRecord" where
  "picture k t =
     \<lparr>img_id = k, img_url = ''data:image/png;base64,AAAA'', img_prompt = ''a red fox'',
      img_model = ''openai/gpt-5-image'', img_modelName = ''GPT-5 Image'',
      img_size = ''1024x1024'', img_quality = ''1K'', img_aspectRatio = ''1:1'',
      img_references = [], img_createdAt = t\<rparr>"


definition demo_url :: string where
  "demo_url = ''data:image/png;base64,QQ==''"

definition demo_one :: "event list" where
  \<comment> \<open>a prompt, a key, and one image asked for\<close>
  "demo_one = [InputPrompt ''a cat'', SaveApiKey ''sk-1'', GenerateImages 1000 (1 / 2)]"

definition demo_two :: "event list" where
  \<comment> \<open>the same with two images\<close>
  "demo_two = [InputPrompt ''a cat'', SaveApiKey ''sk-1'', IncreaseCount,
               GenerateImages 1000 (1 / 2)]"

section \<open>Properties of sanitizeImageUrl\<close>

lemma replaceAll_free:
  "c \<notin> set r \<Longrightarrow> c \<notin> set (replaceAll c r s)"
  by (induction s) auto

lemma replaceAll_keeps:
  "d \<notin> set s \<Longrightarrow> d \<notin> set r \<Longrightarrow> d \<notin> set (replaceAll c r s)"
  by (induction s) auto

lemma replaceAll_append:
  "replaceAll c r (p @ s) = replaceAll c r p @ replaceAll c r s"
  by (induction p) auto

lemma replaceAll_id:
  "c \<notin> set p \<Longrightarrow> replaceAll c r p = p"
  by (induction p) auto

lemma startsWith_append:
  "startsWith s p \<longleftrightarrow> (\<exists>t. s = p @ t)"
  unfolding startsWith_def
  by (metis append_eq_conv_conj append_take_drop_id)

lemma startsWith_replaceAll:
  assumes "startsWith s p" and "c \<notin> set p"
  shows "startsWith (replaceAll c r s) p"
proof -
  from assms(1) obtain t where "s = p @ t"
    by (auto simp: startsWith_append)
  then have "replaceAll c r s = p @ replaceAll c r t"
    using assms(2) by (simp add: replaceAll_append replaceAll_id)
  then show ?thesis
    by (auto simp: startsWith_append)
qed

text \<open>
  C10. Whatever string it is given, \<open>sanitizeImageUrl\<close> returns the empty string, or a
  string that begins with \<open>data:image/\<close>, or a string that begins with \<open>https://\<close> and
  holds neither a double quote nor a single quote; a url that begins with neither prefix
  is mapped to the empty string.
\<close>

theorem sanitizeImageUrl_safe:
  "(sanitizeImageUrl url = []
      \<or> startsWith (sanitizeImageUrl url) ''data:image/''
      \<or> (startsWith (sanitizeImageUrl url) ''https://''
          \<and> CHR 0x22 \<notin> set (sanitizeImageUrl url)
          \<and> CHR 0x27 \<notin> set (sanitizeImageUrl url)))
   \<and> (\<not> startsWith url ''data:image/'' \<and> \<not> startsWith url ''https://''
        \<longrightarrow> sanitizeImageUrl url = [])"
proof -
  have "startsWith (replaceAll (CHR 0x27) ''%27'' (replaceAll (CHR 0x22) ''%22'' url)) ''https://''"
    if "startsWith url ''https://''"
    using that by (intro startsWith_replaceAll) simp_all
  moreover have "CHR 0x22 \<notin> set (replaceAll (CHR 0x27) ''%27'' (replaceAll (CHR 0x22) ''%22'' url))"
    by (intro replaceAll_keeps replaceAll_free) simp_all
  moreover have "CHR 0x27 \<notin> set (replaceAll (CHR 0x27) ''%27'' (replaceAll (CHR 0x22) ''%22'' url))"
    by (intro replaceAll_free) simp
  ultimately show ?thesis
    by (simp add: sanitizeImageUrl_def)
qed

theorem sanitizeImageUrl_safe_witness:
  "sanitizeImageUrl ''javascript:alert(1)'' = []
   \<and> sanitizeImageUrl ''http://example.org/a.png'' = []
   \<and> \<not> startsWith ''javascript:alert(1)'' ''https://''"
  using sanitizeImageUrl_safe [of "''javascript:alert(1)''"]
    sanitizeImageUrl_safe [of "''http://example.org/a.png''"]
  by (simp add: startsWith_def)


section \<open>Loading the gallery\<close>

lemma newest_first_sort:
  "newest_first (sort_key (\<lambda>r. - img_createdAt r) xs)"
proof -
  have "sorted (map (\<lambda>r. - img_createdAt r) (sort_key (\<lambda>r. - img_createdAt r) xs))"
    by (rule sorted_sort_key)
  then show ?thesis
    by (simp add: newest_first_def sorted_map)
qed

lemma getAllImages_ok:
  "getAllImages False store = Inr xs \<Longrightarrow> newest_first xs \<and> mset xs = mset store"
  by (auto simp: getAllImages_def newest_first_sort)

text \<open>
  C5. At the start, the collection in memory is the records of the store, newest first;
  when the read of the store fails it is empty, the error is logged, and nothing is
  raised.
\<close>

theorem init_load:
  "newest_first (images (init p False store))
   \<and> mset (images (init p False store)) = mset store
   \<and> images (init p True store) = []
   \<and> uncaught (effects (init p fails store)) = []"
  by (simp add: init_def getAllImages_def newest_first_sort)

section \<open>Deleting and clearing\<close>

text \<open>
  C7. Deleting the record at an index of the collection takes exactly that record out of
  it (the old collection is the new one with the record put back at the index) and sends
  the store one delete, with the id of the record. At an index past the end, the
  collection and the store stay as they are and the store gets no call. When the delete
  fails in the store, the collection is the same as when it succeeds, and nothing is
  raised.
\<close>

theorem deleteImage_spec:
  "(index < length (images s) \<longrightarrow>
      images s = take index (images (deleteImage index fails s)) @ [images s ! index]
                 @ drop index (images (deleteImage index fails s))
      \<and> store_calls (effects (deleteImage index fails s))
          = Store_delete (img_id (images s ! index)) # store_calls (effects s)
      \<and> db (deleteImage index False s) = store_delete (img_id (images s ! index)) (db s))
   \<and> (length (images s) \<le> index \<longrightarrow>
      images (deleteImage index fails s) = images s
      \<and> db (deleteImage index fails s) = db s
      \<and> store_calls (effects (deleteImage index fails s)) = store_calls (effects s))
   \<and> images (deleteImage index True s) = images (deleteImage index False s)
   \<and> db (deleteImage index True s) = db s
   \<and> uncaught (effects (deleteImage index fails s)) = uncaught (effects s)"
  by (auto simp: deleteImage_def splice1_def Let_def id_take_nth_drop min_def)

theorem deleteImage_spec_witness:
  "images (init no_prefs False [picture 1 10, picture 2 20]) = [picture 2 20, picture 1 10]
   \<and> images (deleteImage 1 True (init no_prefs False [picture 1 10, picture 2 20]))
       = [picture 2 20]
   \<and> store_calls (effects (deleteImage 1 True (init no_prefs False [picture 1 10, picture 2 20])))
       = [Store_delete 1, Store_getAll]
   \<and> images (deleteImage 2 False (init no_prefs False [picture 1 10, picture 2 20]))
       = [picture 2 20, picture 1 10]
   \<and> store_calls (effects (deleteImage 2 False (init no_prefs False [picture 1 10, picture 2 20])))
       = [Store_getAll]"
  using deleteImage_spec [of 1 "init no_prefs False [picture 1 10, picture 2 20]" True]
    deleteImage_spec [of 2 "init no_prefs False [picture 1 10, picture 2 20]" False]
  by (simp add: init_def getAllImages_def picture_def deleteImage_def splice1_def)

text \<open>
  C8. Once the user has confirmed, clearing leaves the collection empty whether the clear
  of the store succeeds or fails; the store gets one clear, a failure of it is logged and
  nothing is raised.
\<close>

theorem clearGallery_spec:
  "images (clearGallery True fails s) = []
   \<and> uncaught (effects (clearGallery True fails s)) = uncaught (effects s)
   \<and> store_calls (effects (clearGallery True fails s)) = Store_clear # store_calls (effects s)
   \<and> db (clearGallery True True s) = db s
   \<and> db (clearGallery True False s) = []"
  by (simp add: clearGallery_def)

section \<open>Recreating from a record\<close>











section \<open>Batches\<close>

subsection \<open>Lists\<close>

lemma count_list_update_new:
  "i < length xs \<Longrightarrow> xs ! i \<noteq> y \<Longrightarrow> count_list (xs[i := y]) y = Suc (count_list xs y)"
proof (induction xs arbitrary: i)
  case Nil
  then show ?case by simp
next
  case (Cons x xs)
  then show ?case by (cases i) auto
qed

lemma count_list_update_other:
  "i < length xs \<Longrightarrow> xs ! i \<noteq> z \<Longrightarrow> y \<noteq> z \<Longrightarrow> count_list (xs[i := y]) z = count_list xs z"
proof (induction xs arbitrary: i)
  case Nil
  then show ?case by simp
next
  case (Cons x xs)
  then show ?case by (cases i) auto
qed

lemma count_units:
  "count_list us Succeeded + count_list us Failed + count_list us Pending = length us"
proof (induction us)
  case Nil
  then show ?case by simp
next
  case (Cons u us)
  then show ?case by (cases u) simp_all
qed

lemma no_pending: "Pending \<notin> set us \<longleftrightarrow> count_list us Pending = 0"
  by (simp add: count_list_0_iff)

lemma findIndex_Some:
  "findIndex p xs = Some k \<Longrightarrow> k < length xs \<and> p (xs ! k) \<and> (\<forall>j<k. \<not> p (xs ! j))"
proof (induction xs arbitrary: k)
  case Nil
  then show ?case by simp
next
  case (Cons x xs)
  show ?case
  proof (cases "p x")
    case True
    with Cons.prems show ?thesis by simp
  next
    case False
    with Cons.prems obtain k' where k: "findIndex p xs = Some k'" "k = Suc k'"
      by auto
    from Cons.IH [OF k(1)] False k(2) show ?thesis
      by (auto simp: less_Suc_eq_0_disj)
  qed
qed

lemma findIndex_None: "findIndex p xs = None \<longleftrightarrow> (\<forall>x\<in>set xs. \<not> p x)"
  by (induction xs) auto

lemma findIndex_unique:
  assumes "a \<in> set xs" and "\<forall>x\<in>set xs. p x \<longleftrightarrow> x = a"
  shows "\<exists>k. findIndex p xs = Some k \<and> k < length xs \<and> xs ! k = a"
proof (cases "findIndex p xs")
  case None
  with assms show ?thesis by (auto simp: findIndex_None)
next
  case (Some k)
  from findIndex_Some [OF this] assms(2) show ?thesis
    using Some by auto
qed

lemma splice1_distinct:
  assumes "distinct xs" and "k < length xs"
  shows "distinct (splice1 k xs) \<and> set (splice1 k xs) = set xs - {xs ! k}"
proof -
  have xs: "xs = take k xs @ xs ! k # drop (Suc k) xs"
    using assms(2) by (rule id_take_nth_drop)
  from assms(1) have d: "distinct (take k xs @ xs ! k # drop (Suc k) xs)"
    using xs by simp
  have "set xs = set (take k xs) \<union> {xs ! k} \<union> set (drop (Suc k) xs)"
    by (subst xs) auto
  with d show ?thesis
    by (auto simp: splice1_def)
qed

subsection \<open>What a settlement does to the generations\<close>

lemma length_settle [simp]: "length (settle a i ok gs) = length gs"
  by (simp add: settle_def)

lemma settle_unit_frame [simp]:
  "finished (settle_unit i ok g) = finished g"
  "batchId (settle_unit i ok g) = batchId g"
  "g_prompt (settle_unit i ok g) = g_prompt g"
  "g_modelConfig (settle_unit i ok g) = g_modelConfig g"
  "currentReferences (settle_unit i ok g) = currentReferences g"
  "currentModel (settle_unit i ok g) = currentModel g"
  "currentSize (settle_unit i ok g) = currentSize g"
  "currentQuality (settle_unit i ok g) = currentQuality g"
  "currentAspectRatio (settle_unit i ok g) = currentAspectRatio g"
  "b_count (batch (settle_unit i ok g)) = b_count (batch g)"
  "b_id (batch (settle_unit i ok g)) = b_id (batch g)"
  "length (units (settle_unit i ok g)) = length (units g)"
  by (simp_all add: settle_unit_def)

lemma settle_finished: "finished (settle a i ok gs ! x) = finished (gs ! x)"
proof (cases "a < length gs")
  case True
  then show ?thesis
    by (cases "x = a") (simp_all add: settle_def)
next
  case False
  then show ?thesis
    by (simp add: settle_def list_update_beyond not_less)
qed

lemma settle_batchId: "map batchId (settle a i ok gs) = map batchId gs"
proof (cases "a < length gs")
  case True
  then show ?thesis
    by (simp add: settle_def map_update list_update_same_conv)
next
  case False
  then show ?thesis
    by (simp add: settle_def list_update_beyond not_less)
qed

lemma gen_ok_settle:
  assumes "gen_ok g" and "i < length (units g)" and "units g ! i = Pending"
  shows "gen_ok (settle_unit i ok g)"
proof -
  have p: "Pending \<in> set (units g)"
    using assms(2,3) by (metis nth_mem)
  show ?thesis
    using assms p
    by (cases ok) (simp_all add: gen_ok_def settle_unit_def count_list_update_new count_list_update_other)
qed

lemma list_all_settle:
  assumes "list_all gen_ok gs" and "a < length gs" and "i < length (units (gs ! a))"
    and "units (gs ! a) ! i = Pending"
  shows "list_all gen_ok (settle a i ok gs)"
proof -
  have "gen_ok (gs ! a)"
    using assms(1,2) by (simp add: list_all_length)
  from gen_ok_settle [OF this assms(3,4), of ok] assms(1,2) show ?thesis
    by (simp add: settle_def list_all_length nth_list_update)
qed

subsection \<open>Projections\<close>

lemma generateImages_rejected:
  assumes "\<not> accepted s"
  shows "generations (generateImages now rnd s) = generations s"
    "pendingBatches (generateImages now rnd s) = pendingBatches s"
    "imageCount (generateImages now rnd s) = imageCount s"
    "images (generateImages now rnd s) = images s"
    "\<exists>e. effects (generateImages now rnd s) = e # effects s
         \<and> (\<forall>a i q. e \<noteq> Fetch a i q) \<and> (\<forall>a i r. e \<noteq> Inserted a i r)"
  using assms by (auto simp: generateImages_def accepted_def Let_def split: option.splits)

lemma generateImages_accepted:
  assumes "accepted s"
  shows "generations (generateImages now rnd s)
           = generations s @ [new_generation now rnd s (trim (promptInput s))
                                (the (map_of MODEL_CONFIGS (selectedModel s)))]"
    "pendingBatches (generateImages now rnd s) = pendingBatches s @ [length (generations s)]"
    "imageCount (generateImages now rnd s) = imageCount s"
    "images (generateImages now rnd s) = images s"
    "effects (generateImages now rnd s)
       = map (\<lambda>i. Fetch (length (generations s)) i
                (generateSingleImage_request s (trim (promptInput s))
                   (the (map_of MODEL_CONFIGS (selectedModel s)))))
           (rev [0..<nat (imageCount s)])
         @ Toast (''Queued '' @ numberToString (imageCount s) @ '' image(s) for generation'')
             ''success''
         # effects s"
  using assms by (auto simp: generateImages_def accepted_def Let_def split: option.splits)

lemma generateAndDisplay_idle:
  "\<not> unit_pending a i s \<Longrightarrow> generateAndDisplay a i out now rnd cr pf s = s"
  by (simp add: generateAndDisplay_def)

lemma generateAndDisplay_fields:
  assumes "unit_pending a i s"
  shows "generations (generateAndDisplay a i out now rnd cr pf s) = settle a i (is_ok out) (generations s)"
    "pendingBatches (generateAndDisplay a i out now rnd cr pf s) = pendingBatches s"
    "imageCount (generateAndDisplay a i out now rnd cr pf s) = imageCount s"
  using assms by (auto simp: generateAndDisplay_def is_ok_def Let_def split: sum.splits)

lemma generateAndDisplay_ok:
  assumes "unit_pending a i s" and "is_ok out"
  shows "images (generateAndDisplay a i out now rnd cr pf s)
           = imageData (generations s ! a) i (projr out) now rnd cr # images s"
    "effects (generateAndDisplay a i out now rnd cr pf s)
           = (if pf then [Console StoreError] else [])
             @ Store_put (imageData (generations s ! a) i (projr out) now rnd cr)
             # Inserted a i (imageData (generations s ! a) i (projr out) now rnd cr) # effects s"
  using assms by (auto simp: generateAndDisplay_def is_ok_def Let_def split: sum.splits)

lemma generateAndDisplay_failed:
  assumes "unit_pending a i s" and "\<not> is_ok out"
  shows "images (generateAndDisplay a i out now rnd cr pf s) = images s"
    "effects (generateAndDisplay a i out now rnd cr pf s)
           = (case out of Inl e \<Rightarrow> [Console e] | Inr r \<Rightarrow> []) @ effects s"
  using assms by (auto simp: generateAndDisplay_def is_ok_def Let_def split: sum.splits)

lemma generateImages_settled_idle:
  "\<not> runnable a s \<Longrightarrow> generateImages_settled a s = s"
  by (auto simp: generateImages_settled_def runnable_def)

lemma generateImages_settled_fields:
  assumes "runnable a s"
  shows "generations (generateImages_settled a s)
           = (generations s)[a := (generations s ! a)\<lparr>finished := True\<rparr>]"
    "pendingBatches (generateImages_settled a s)
           = (case findIndex (\<lambda>x. b_id (batch (generations s ! x)) = batchId (generations s ! a))
                     (pendingBatches s) of
                None \<Rightarrow> pendingBatches s | Some k \<Rightarrow> splice1 k (pendingBatches s))"
    "imageCount (generateImages_settled a s) = imageCount s"
    "images (generateImages_settled a s) = images s"
    "effects (generateImages_settled a s)
           = completion_toast (b_completed (batch (generations s ! a))) # effects s"
  using assms by (simp_all add: generateImages_settled_def runnable_def Let_def)

lemma restoreQuality_tracker [simp]:
  "generations (foldl (restoreQuality q) s btns) = generations s"
  "pendingBatches (foldl (restoreQuality q) s btns) = pendingBatches s"
  "imageCount (foldl (restoreQuality q) s btns) = imageCount s"
  "images (foldl (restoreQuality q) s btns) = images s"
  "effects (foldl (restoreQuality q) s btns) = effects s"
  by (induction btns arbitrary: s) (simp_all add: restoreQuality_def)

lemma restoreAspect_tracker [simp]:
  "generations (foldl (restoreAspect r) s btns) = generations s"
  "pendingBatches (foldl (restoreAspect r) s btns) = pendingBatches s"
  "imageCount (foldl (restoreAspect r) s btns) = imageCount s"
  "images (foldl (restoreAspect r) s btns) = images s"
  "effects (foldl (restoreAspect r) s btns) = effects s"
  by (induction btns arbitrary: s) (simp_all add: restoreAspect_def)

lemmas handler_defs =
  deleteImage_def clearGallery_def openModal_def closeModal_def useImageAsReference_def
  recreateImage_def selectModel_def toggleSize_def selectAspect_def decreaseCount_def
  increaseCount_def changeCount_def saveApiKey_def addReference_def removeReference_def
  clearAllReferences_def

lemma other_tracker:
  assumes "\<not> batch_event e"
  shows "generations (step d e s) = generations s"
    "pendingBatches (step d e s) = pendingBatches s"
    "0 \<le> imageCount s \<Longrightarrow> 0 \<le> imageCount (step d e s)"
  using assms
  by (cases e; simp add: batch_event_def handler_defs Let_def split: option.splits)+

subsection \<open>The counters\<close>

lemma gen_ok_new:
  "0 \<le> imageCount s \<Longrightarrow> gen_ok (new_generation now rnd s p c)"
  by (simp add: gen_ok_def new_generation_def count_list_0_iff)

lemma counted_generateImages:
  assumes "counted s"
  shows "counted (generateImages now rnd s)"
proof (cases "accepted s")
  case True
  with assms show ?thesis
    by (simp add: counted_def generateImages_accepted gen_ok_new)
next
  case False
  with assms show ?thesis
    by (simp add: counted_def generateImages_rejected)
qed

lemma counted_generateAndDisplay:
  assumes "counted s"
  shows "counted (generateAndDisplay a i out now rnd cr pf s)"
proof (cases "unit_pending a i s")
  case True
  then have "list_all gen_ok (settle a i (is_ok out) (generations s))"
    using assms by (intro list_all_settle) (simp_all add: counted_def unit_pending_def)
  with True assms show ?thesis
    by (simp add: counted_def generateAndDisplay_fields)
next
  case False
  with assms show ?thesis
    by (simp add: generateAndDisplay_idle)
qed

lemma counted_generateImages_settled:
  assumes "counted s"
  shows "counted (generateImages_settled a s)"
proof (cases "runnable a s")
  case True
  then have "gen_ok (generations s ! a)"
    using assms by (simp add: counted_def runnable_def list_all_length)
  then have "gen_ok ((generations s ! a)\<lparr>finished := True\<rparr>)"
    using True by (simp add: gen_ok_def runnable_def)
  with True assms show ?thesis
    by (simp add: counted_def generateImages_settled_fields list_all_length nth_list_update
          runnable_def)
next
  case False
  with assms show ?thesis
    by (simp add: generateImages_settled_idle)
qed

lemma counted_step:
  assumes "counted s"
  shows "counted (step d e s)"
proof (cases "batch_event e")
  case True
  with assms show ?thesis
    by (cases e)
      (simp_all add: batch_event_def counted_generateImages counted_generateAndDisplay
         counted_generateImages_settled)
next
  case False
  with assms show ?thesis
    by (simp add: counted_def other_tracker)
qed

lemma counted_run: "counted s \<Longrightarrow> counted (run d s evs)"
  by (induction evs arbitrary: s) (simp_all add: counted_step)

lemma counted_init: "0 \<le> imageCount (init p fails store) \<Longrightarrow> counted (init p fails store)"
  by (simp add: counted_def init_def)

subsection \<open>The list of pending batches\<close>

lemma finish_batchId:
  "map batchId (gs[a := (gs ! a)\<lparr>finished := True\<rparr>]) = map batchId gs"
  by (cases "a < length gs") (simp_all add: map_update list_update_same_conv list_update_beyond not_less)

lemma batchIds_step:
  "\<exists>new. map batchId (generations (step d e s)) = map batchId (generations s) @ new"
proof (cases "batch_event e")
  case False
  then show ?thesis
    by (simp add: other_tracker)
next
  case True
  show ?thesis
  proof (cases e)
    case (GenerateImages now rnd)
    then show ?thesis
      by (cases "accepted s") (simp_all add: generateImages_accepted generateImages_rejected)
  next
    case (UnitSettles a i out now rnd cr pf)
    then show ?thesis
      by (cases "unit_pending a i s")
        (simp_all add: generateAndDisplay_fields generateAndDisplay_idle settle_batchId)
  next
    case (AllSettled a)
    then show ?thesis
      by (cases "runnable a s")
        (simp_all add: generateImages_settled_fields generateImages_settled_idle finish_batchId)
  qed (use True in \<open>simp_all add: batch_event_def\<close>)
qed

lemma distinct_ids_back:
  "distinct (map batchId (generations (step d e s))) \<Longrightarrow> distinct (map batchId (generations s))"
  using batchIds_step [of d e s] by (metis distinct_append)

lemma run_snoc: "run d s (evs @ [e]) = step d e (run d s evs)"
  by (induction evs arbitrary: s) simp_all

lemma listed_generateImages:
  assumes "listed s"
  shows "listed (generateImages now rnd s)"
proof (cases "accepted s")
  case False
  with assms show ?thesis
    by (simp add: listed_def generateImages_rejected)
next
  case True
  have "finished (new_generation now rnd s p c) = False" for p c
    by (simp add: new_generation_def)
  with assms True show ?thesis
    by (auto simp: listed_def generateImages_accepted nth_append less_Suc_eq)
qed

lemma listed_generateAndDisplay:
  assumes "listed s"
  shows "listed (generateAndDisplay a i out now rnd cr pf s)"
proof (cases "unit_pending a i s")
  case True
  with assms show ?thesis
    by (simp add: listed_def generateAndDisplay_fields settle_finished)
next
  case False
  with assms show ?thesis
    by (simp add: generateAndDisplay_idle)
qed

lemma listed_generateImages_settled:
  assumes "counted s" and "listed s" and "distinct (map batchId (generations s))"
  shows "listed (generateImages_settled a s)"
proof (cases "runnable a s")
  case False
  with assms show ?thesis
    by (simp add: generateImages_settled_idle)
next
  case True
  let ?gs = "generations s" and ?pb = "pendingBatches s"
  let ?p = "\<lambda>x. b_id (batch (?gs ! x)) = batchId (?gs ! a)"
  from True have a: "a < length ?gs" "\<not> finished (?gs ! a)"
    by (simp_all add: runnable_def)
  with assms(2) have mem: "a \<in> set ?pb"
    by (simp add: listed_def)
  have "?p x \<longleftrightarrow> x = a" if "x \<in> set ?pb" for x
  proof -
    from that assms(2) have x: "x < length ?gs"
      by (simp add: listed_def)
    with assms(1) have "b_id (batch (?gs ! x)) = batchId (?gs ! x)"
      by (simp add: counted_def list_all_length gen_ok_def)
    moreover have "batchId (?gs ! x) = batchId (?gs ! a) \<longleftrightarrow> x = a"
      using nth_eq_iff_index_eq [OF assms(3), of x a] x a(1) by simp
    ultimately show ?thesis by simp
  qed
  then have "\<forall>x\<in>set ?pb. ?p x \<longleftrightarrow> x = a" by blast
  from findIndex_unique [OF mem this] obtain k
    where k: "findIndex ?p ?pb = Some k" "k < length ?pb" "?pb ! k = a"
    by blast
  from assms(2) have "distinct ?pb"
    by (simp add: listed_def)
  from splice1_distinct [OF this k(2)] k(3)
  have sp: "distinct (splice1 k ?pb)" "set (splice1 k ?pb) = set ?pb - {a}"
    by simp_all
  have pb: "pendingBatches (generateImages_settled a s) = splice1 k ?pb"
    using True k(1) by (simp add: generateImages_settled_fields)
  have gs: "generations (generateImages_settled a s) = ?gs[a := (?gs ! a)\<lparr>finished := True\<rparr>]"
    using True by (simp add: generateImages_settled_fields)
  have "set (splice1 k ?pb)
          = {x. x < length ?gs \<and> \<not> finished (?gs[a := (?gs ! a)\<lparr>finished := True\<rparr>] ! x)}"
    using assms(2) a(1) unfolding sp(2) listed_def
    by (auto simp: nth_list_update)
  with sp(1) show ?thesis
    by (simp add: listed_def pb gs)
qed

lemma listed_step:
  assumes "counted s" and "listed s" and "distinct (map batchId (generations s))"
  shows "listed (step d e s)"
proof (cases "batch_event e")
  case True
  with assms show ?thesis
    by (cases e)
      (simp_all add: batch_event_def listed_generateImages listed_generateAndDisplay
         listed_generateImages_settled)
next
  case False
  with assms show ?thesis
    by (simp add: listed_def other_tracker)
qed

lemma listed_run:
  assumes "counted s" and "listed s"
    and "distinct (map batchId (generations (run d s evs)))"
  shows "listed (run d s evs)"
  using assms(3)
proof (induction evs rule: rev_induct)
  case Nil
  with assms(2) show ?case by simp
next
  case (snoc e evs)
  from snoc.prems have d: "distinct (map batchId (generations (run d s evs)))"
    by (simp add: run_snoc distinct_ids_back)
  from listed_step [OF counted_run [OF assms(1)] snoc.IH [OF d] d] show ?case
    by (simp add: run_snoc)
qed

lemma listed_init: "listed (init p fails store)"
  by (simp add: listed_def init_def)

lemma progress_bound:
  assumes "gen_ok g"
  shows "b_completed (batch g) + b_failed (batch g) \<le> b_count (batch g)"
    "b_completed (batch g) + b_failed (batch g) < b_count (batch g) \<longleftrightarrow> Pending \<in> set (units g)"
proof -
  have "count_list (units g) Succeeded + count_list (units g) Failed
          + count_list (units g) Pending = nat (b_count (batch g))"
    using assms count_units [of "units g"] by (simp add: gen_ok_def)
  moreover have "0 \<le> b_count (batch g)"
    using assms by (simp add: gen_ok_def)
  moreover have "Pending \<in> set (units g) \<longleftrightarrow> 0 < count_list (units g) Pending"
    using no_pending [of "units g"] by auto
  ultimately show "b_completed (batch g) + b_failed (batch g) \<le> b_count (batch g)"
    "b_completed (batch g) + b_failed (batch g) < b_count (batch g) \<longleftrightarrow> Pending \<in> set (units g)"
    using assms by (auto simp: gen_ok_def)
qed

subsection \<open>The records of a batch\<close>

lemma inserted_append: "inserted a (xs @ ys) = inserted a xs @ inserted a ys"
  by (induction xs rule: inserted.induct) simp_all

lemma inserted_none: "\<forall>e\<in>set xs. \<not> is_inserted e \<Longrightarrow> inserted a xs = []"
  by (induction xs rule: inserted.induct) simp_all

lemma inserted_Cons_other: "\<not> is_inserted e \<Longrightarrow> inserted a (e # es) = inserted a es"
  by (cases e) simp_all

lemma completion_toast_not_inserted [simp]: "\<not> is_inserted (completion_toast c)"
  by (simp add: completion_toast_def)

lemma other_effects:
  assumes "\<not> batch_event e"
  shows "\<exists>new. effects (step d e s) = new @ effects s \<and> (\<forall>x\<in>set new. \<not> is_inserted x)"
  using assms
  by (cases e; simp add: batch_event_def handler_defs Let_def split: option.splits)+

lemma other_inserted:
  assumes "\<not> batch_event e"
  shows "inserted a (effects (step d e s)) = inserted a (effects s)"
proof -
  from other_effects [OF assms, of d s] obtain new
    where "effects (step d e s) = new @ effects s" "\<forall>x\<in>set new. \<not> is_inserted x"
    by blast
  then show ?thesis
    by (simp add: inserted_append inserted_none)
qed

lemma inserted_generateImages:
  "inserted a (effects (generateImages now rnd s)) = inserted a (effects s)"
proof (cases "accepted s")
  case True
  have "inserted a (map (\<lambda>i. Fetch b i q) xs) = []" for b q xs
    by (rule inserted_none) auto
  with True show ?thesis
    by (simp add: generateImages_accepted inserted_append)
next
  case False
  from generateImages_rejected(5) [OF this, of now rnd] obtain e
    where "effects (generateImages now rnd s) = e # effects s" "\<forall>a i r. e \<noteq> Inserted a i r"
    by blast
  then show ?thesis
    by (cases e) simp_all
qed

lemma inserted_generateAndDisplay:
  assumes "unit_pending a i s"
  shows "inserted b (effects (generateAndDisplay a i out now rnd cr pf s))
           = (if is_ok out \<and> b = a
              then imageData (generations s ! a) i (projr out) now rnd cr # inserted b (effects s)
              else inserted b (effects s))"
proof (cases "is_ok out")
  case True
  with assms show ?thesis
    by (simp add: generateAndDisplay_ok inserted_append)
next
  case False
  with assms show ?thesis
    by (cases out) (simp_all add: generateAndDisplay_failed)
qed

lemma inserted_generateImages_settled:
  "inserted b (effects (generateImages_settled a s)) = inserted b (effects s)"
  by (cases "runnable a s")
    (simp_all add: generateImages_settled_fields generateImages_settled_idle inserted_Cons_other)

lemma units_settle:
  "a < length gs \<Longrightarrow>
     units (settle a i ok gs ! b)
       = (if b = a then (units (gs ! a))[i := (if ok then Succeeded else Failed)] else units (gs ! b))"
  by (simp add: settle_def settle_unit_def)

lemma recorded_generateImages:
  assumes "recorded s"
  shows "recorded (generateImages now rnd s)"
proof (cases "accepted s")
  case False
  with assms show ?thesis
    by (simp add: recorded_def inserted_generateImages generateImages_rejected(1))
next
  case True
  have "count_list (units (new_generation now rnd s p c)) Succeeded = 0" for p c
    by (simp add: new_generation_def count_list_0_iff)
  with assms True show ?thesis
    by (simp add: recorded_def inserted_generateImages generateImages_accepted(1) nth_append)
qed

lemma recorded_generateAndDisplay:
  assumes "recorded s"
  shows "recorded (generateAndDisplay a i out now rnd cr pf s)"
proof (cases "unit_pending a i s")
  case False
  with assms show ?thesis
    by (simp add: generateAndDisplay_idle)
next
  case True
  then have a: "a < length (generations s)" "i < length (units (generations s ! a))"
    "units (generations s ! a) ! i = Pending"
    by (simp_all add: unit_pending_def)
  from a(2,3) have
    "count_list ((units (generations s ! a))[i := Succeeded]) Succeeded
       = Suc (count_list (units (generations s ! a)) Succeeded)"
    "count_list ((units (generations s ! a))[i := Failed]) Succeeded
       = count_list (units (generations s ! a)) Succeeded"
    by (simp_all add: count_list_update_new count_list_update_other)
  with assms True a(1) show ?thesis
    by (simp add: recorded_def inserted_generateAndDisplay generateAndDisplay_fields units_settle)
qed

lemma recorded_generateImages_settled:
  assumes "recorded s"
  shows "recorded (generateImages_settled a s)"
proof (cases "runnable a s")
  case False
  with assms show ?thesis
    by (simp add: generateImages_settled_idle)
next
  case True
  with assms show ?thesis
    by (simp add: recorded_def inserted_generateImages_settled generateImages_settled_fields(1)
          nth_list_update runnable_def)
qed

lemma recorded_step:
  assumes "recorded s"
  shows "recorded (step d e s)"
proof (cases "batch_event e")
  case True
  with assms show ?thesis
    by (cases e)
      (simp_all add: batch_event_def recorded_generateImages recorded_generateAndDisplay
         recorded_generateImages_settled)
next
  case False
  with assms show ?thesis
    by (simp add: recorded_def other_tracker other_inserted)
qed

lemma recorded_run: "recorded s \<Longrightarrow> recorded (run d s evs)"
  by (induction evs arbitrary: s) (simp_all add: recorded_step)

lemma recorded_init: "recorded (init p fails store)"
  by (simp add: recorded_def init_def split: sum.splits)

subsection \<open>The notification\<close>

lemma effects_grow: "set (effects s) \<subseteq> set (effects (step d e s))"
proof (cases "batch_event e")
  case False
  from other_effects [OF this, of d s] show ?thesis
    by auto
next
  case True
  show ?thesis
  proof (cases e)
    case (GenerateImages now rnd)
    show ?thesis
    proof (cases "accepted s")
      case True
      with GenerateImages show ?thesis
        by (auto simp: generateImages_accepted)
    next
      case False
      from generateImages_rejected(5) [OF this, of now rnd] GenerateImages show ?thesis
        by auto
    qed
  next
    case (UnitSettles a i out now rnd cr pf)
    then show ?thesis
      by (cases "unit_pending a i s"; cases "is_ok out")
        (auto simp: generateAndDisplay_ok generateAndDisplay_failed generateAndDisplay_idle)
  next
    case (AllSettled a)
    then show ?thesis
      by (cases "runnable a s")
        (auto simp: generateImages_settled_fields generateImages_settled_idle)
  qed (use True in \<open>simp_all add: batch_event_def\<close>)
qed

lemma announced_generateImages:
  assumes "announced s"
  shows "announced (generateImages now rnd s)"
proof (cases "accepted s")
  case False
  with assms effects_grow [of s d "GenerateImages now rnd"] show ?thesis
    by (auto simp: announced_def generateImages_rejected)
next
  case True
  have "finished (new_generation now rnd s p c) = False" for p c
    by (simp add: new_generation_def)
  with assms True effects_grow [of s d "GenerateImages now rnd"] show ?thesis
    by (auto simp: announced_def generateImages_accepted(1) nth_append less_Suc_eq)
qed

lemma announced_generateAndDisplay:
  assumes "counted s" and "announced s"
  shows "announced (generateAndDisplay a i out now rnd cr pf s)"
proof (cases "unit_pending a i s")
  case False
  with assms show ?thesis
    by (simp add: generateAndDisplay_idle)
next
  case True
  then have a: "a < length (generations s)" "Pending \<in> set (units (generations s ! a))"
    by (auto simp: unit_pending_def dest: nth_mem)
  with assms(1) have nf: "\<not> finished (generations s ! a)"
    by (auto simp: counted_def list_all_length gen_ok_def)
  have "completion_toast (b_completed (batch (settle a i (is_ok out) (generations s) ! b)))
          \<in> set (effects (generateAndDisplay a i out now rnd cr pf s))"
    if "b < length (generations s)" "finished (settle a i (is_ok out) (generations s) ! b)" for b
  proof -
    from that(2) have f: "finished (generations s ! b)"
      by (simp add: settle_finished)
    with nf have "b \<noteq> a" by auto
    then have "settle a i (is_ok out) (generations s) ! b = generations s ! b"
      by (simp add: settle_def)
    moreover from assms(2) that(1) f
    have "completion_toast (b_completed (batch (generations s ! b))) \<in> set (effects s)"
      by (simp add: announced_def)
    ultimately show ?thesis
      using effects_grow [of s d "UnitSettles a i out now rnd cr pf"] by auto
  qed
  with True show ?thesis
    by (simp add: announced_def generateAndDisplay_fields)
qed

lemma announced_generateImages_settled:
  assumes "announced s"
  shows "announced (generateImages_settled a s)"
proof (cases "runnable a s")
  case False
  with assms show ?thesis
    by (simp add: generateImages_settled_idle)
next
  case True
  with assms show ?thesis
    by (auto simp: announced_def generateImages_settled_fields nth_list_update runnable_def)
qed

lemma announced_step:
  assumes "counted s" and "announced s"
  shows "announced (step d e s)"
proof (cases "batch_event e")
  case True
  with assms show ?thesis
    by (cases e)
      (simp_all add: batch_event_def announced_generateImages announced_generateAndDisplay
         announced_generateImages_settled)
next
  case False
  with assms(2) effects_grow [of s d e] show ?thesis
    by (auto simp: announced_def other_tracker)
qed

lemma announced_run: "counted s \<Longrightarrow> announced s \<Longrightarrow> announced (run d s evs)"
  by (induction evs arbitrary: s) (simp_all add: announced_step counted_step)

lemma announced_init: "announced (init p fails store)"
  by (simp add: announced_def init_def)

subsection \<open>The last part of generateImages\<close>

lemma batchIds_settled:
  "map batchId (generations (generateImages_settled a s)) = map batchId (generations s)"
proof (cases "runnable a s")
  case True
  then show ?thesis
    by (simp only: generateImages_settled_fields(1) finish_batchId)
next
  case False
  then show ?thesis
    by (simp add: generateImages_settled_idle)
qed

subsection \<open>The constants of a closure\<close>


lemma constants_settle_unit [simp]: "constants (settle_unit i ok g) = constants g"
  by (simp add: constants_def)












subsection \<open>The order of the gallery\<close>










section \<open>The claims about batches\<close>

lemma reachable:
  assumes "0 \<le> imageCount (init p fails store)" and "s = run d (init p fails store) evs"
  shows "counted s" and "recorded s" and "announced s"
    and "distinct (map batchId (generations s)) \<Longrightarrow> listed s"
proof -
  show "counted s"
    unfolding assms(2) using assms(1) by (intro counted_run counted_init)
  show "recorded s"
    unfolding assms(2) by (intro recorded_run recorded_init)
  show "announced s"
    unfolding assms(2) using assms(1) by (intro announced_run counted_init announced_init)
  show "listed s" if "distinct (map batchId (generations s))"
    using that assms(1) unfolding assms(2) by (intro listed_run counted_init listed_init)
qed

lemma last_part:
  assumes "0 \<le> imageCount (init p fails store)" and "s = run d (init p fails store) evs"
    and "distinct (map batchId (generations s))"
    and "a < length (generations s)"
    and "Pending \<notin> set (units (generations s ! a))"
  shows "a \<notin> set (pendingBatches (generateImages_settled a s))"
    and "completion_toast (b_completed (batch (generations s ! a)))
           \<in> set (effects (generateImages_settled a s))"
proof -
  let ?g = "generations s ! a"
  let ?s' = "generateImages_settled a s"
  have s': "?s' = run d (init p fails store) (evs @ [AllSettled a])"
    by (simp add: run_snoc assms(2))
  have gs': "generations ?s' = (if runnable a s then (generations s)[a := ?g\<lparr>finished := True\<rparr>]
                                else generations s)"
    by (simp add: generateImages_settled_fields generateImages_settled_idle)
  have "distinct (map batchId (generations ?s'))"
    using assms(3) by (simp add: batchIds_settled)
  from reachable(4) [OF assms(1) s' this] have l': "listed ?s'" .
  from reachable(3) [OF assms(1) s'] have n': "announced ?s'" .
  have fin: "finished (generations ?s' ! a)"
    using assms(4,5) by (auto simp: gs' runnable_def)
  have same: "b_completed (batch (generations ?s' ! a)) = b_completed (batch ?g)"
    using assms(4) by (simp add: gs')
  have len: "length (generations ?s') = length (generations s)"
    by (simp add: gs')
  from l' fin assms(4) show "a \<notin> set (pendingBatches ?s')"
    by (simp add: listed_def len)
  from n' fin assms(4)
  have "completion_toast (b_completed (batch (generations ?s' ! a))) \<in> set (effects ?s')"
    unfolding announced_def len by blast
  then show "completion_toast (b_completed (batch ?g)) \<in> set (effects ?s')"
    by (simp only: same)
qed

text \<open>
  C1, as the code has it. In every state that the events lead to from the start, with
  the ids of the batches distinct and the stored count not negative: for every batch,
  \<open>completed + failed \<le> count\<close>; while the sum is below \<open>count\<close> the batch is in
  \<open>pendingBatches\<close>; a batch that is not there has the sum equal to \<open>count\<close>; and a
  batch that is there with the sum equal to \<open>count\<close> is taken out by the part of
  \<open>generateImages\<close> that follows \<open>Promise.allSettled\<close>. Every entry of
  \<open>pendingBatches\<close> is a batch.
\<close>

theorem batch_progress:
  assumes "0 \<le> imageCount (init p fails store)"
    and "s = run d (init p fails store) evs"
    and "distinct (map batchId (generations s))"
    and "a < length (generations s)"
    and "b = batch (generations s ! a)"
  shows "b_completed b + b_failed b \<le> b_count b
     \<and> (b_completed b + b_failed b < b_count b \<longrightarrow> a \<in> set (pendingBatches s))
     \<and> (a \<notin> set (pendingBatches s) \<longrightarrow> b_completed b + b_failed b = b_count b)
     \<and> (a \<in> set (pendingBatches s) \<and> b_completed b + b_failed b = b_count b \<longrightarrow>
          a \<notin> set (pendingBatches (step d (AllSettled a) s)))
     \<and> (\<forall>x\<in>set (pendingBatches s). x < length (generations s))"
proof -
  let ?g = "generations s ! a"
  note inv = reachable [OF assms(1,2)]
  from inv(1) assms(4) have g: "gen_ok ?g"
    by (simp add: counted_def list_all_length)
  note bound = progress_bound [OF g, folded assms(5)]
  have l: "listed s"
    using assms(3) by (rule inv(4))
  have fin: "finished ?g \<longrightarrow> Pending \<notin> set (units ?g)"
    using g by (simp add: gen_ok_def)
  have mem: "a \<in> set (pendingBatches s) \<longleftrightarrow> \<not> finished ?g"
    using l assms(4) by (simp add: listed_def)
  have valid: "\<forall>x\<in>set (pendingBatches s). x < length (generations s)"
    using l by (simp add: listed_def)
  have 1: "b_completed b + b_failed b \<le> b_count b"
    by (rule bound(1))
  have 2: "a \<in> set (pendingBatches s)" if "b_completed b + b_failed b < b_count b"
    using that bound(2) fin mem by blast
  have 3: "b_completed b + b_failed b = b_count b" if "a \<notin> set (pendingBatches s)"
    using that bound fin mem by (metis order.order_iff_strict)
  have 4: "a \<notin> set (pendingBatches (step d (AllSettled a) s))"
    if "b_completed b + b_failed b = b_count b"
  proof -
    from that bound(2) have "Pending \<notin> set (units ?g)"
      by simp
    from last_part(1) [OF assms(1-4) this] show ?thesis
      by simp
  qed
  from 1 2 3 4 valid show ?thesis
    by blast
qed

text \<open>
  Two images asked for, one of them generated: the batch is listed, with one of two
  units settled.
\<close>

theorem batch_progress_witness:
  "0 \<le> imageCount (init no_prefs False [])
   \<and> distinct (map batchId (generations (run page (init no_prefs False [])
        (demo_two @ [UnitSettles 0 1 (Inr demo_url) 1001 (1 / 4) 1001 False]))))
   \<and> 0 < length (generations (run page (init no_prefs False [])
        (demo_two @ [UnitSettles 0 1 (Inr demo_url) 1001 (1 / 4) 1001 False])))
   \<and> b_completed (batch (generations (run page (init no_prefs False [])
        (demo_two @ [UnitSettles 0 1 (Inr demo_url) 1001 (1 / 4) 1001 False])) ! 0)) = 1
   \<and> b_failed (batch (generations (run page (init no_prefs False [])
        (demo_two @ [UnitSettles 0 1 (Inr demo_url) 1001 (1 / 4) 1001 False])) ! 0)) = 0
   \<and> b_count (batch (generations (run page (init no_prefs False [])
        (demo_two @ [UnitSettles 0 1 (Inr demo_url) 1001 (1 / 4) 1001 False])) ! 0)) = 2
   \<and> pendingBatches (run page (init no_prefs False [])
        (demo_two @ [UnitSettles 0 1 (Inr demo_url) 1001 (1 / 4) 1001 False])) = [0]"
  using batch_progress [of no_prefs False "[]"
      "run page (init no_prefs False [])
        (demo_two @ [UnitSettles 0 1 (Inr demo_url) 1001 (1 / 4) 1001 False])"
      page "demo_two @ [UnitSettles 0 1 (Inr demo_url) 1001 (1 / 4) 1001 False]" 0
      "batch (generations (run page (init no_prefs False [])
        (demo_two @ [UnitSettles 0 1 (Inr demo_url) 1001 (1 / 4) 1001 False])) ! 0)"]
  by code_simp

text \<open>
  C1, as the claim states it, fails: when the only unit of a batch has settled, the sum
  equals \<open>count\<close> and the batch is still in \<open>pendingBatches\<close> (this is the state that the
  \<open>renderGallery\<close> of the unit sees), until the part after \<open>Promise.allSettled\<close> runs.
\<close>

theorem batch_listed_when_settled:
  "pendingBatches (run page (init no_prefs False [])
      (demo_one @ [UnitSettles 0 0 (Inr demo_url) 1001 (1 / 4) 1001 False])) = [0]
   \<and> b_completed (batch (generations (run page (init no_prefs False [])
      (demo_one @ [UnitSettles 0 0 (Inr demo_url) 1001 (1 / 4) 1001 False])) ! 0))
     + b_failed (batch (generations (run page (init no_prefs False [])
      (demo_one @ [UnitSettles 0 0 (Inr demo_url) 1001 (1 / 4) 1001 False])) ! 0)) = 1
   \<and> b_count (batch (generations (run page (init no_prefs False [])
      (demo_one @ [UnitSettles 0 0 (Inr demo_url) 1001 (1 / 4) 1001 False])) ! 0)) = 1
   \<and> pendingBatches (run page (init no_prefs False [])
      (demo_one @ [UnitSettles 0 0 (Inr demo_url) 1001 (1 / 4) 1001 False, AllSettled 0])) = []"
  by code_simp








end
